theory Spec2Isabelle
  imports Main "HOL-Library.Word" "HOL-Library.Multiset"
begin

section \<open>Common data\<close>

text \<open>
  A Go \<open>error\<close> value is modelled by its message; the nil error is \<open>None\<close> of
  \<open>error option\<close>.
\<close>

datatype error = Error string

fun message :: "error \<Rightarrow> string" where
  "message (Error m) = m"

section \<open>Load generator (step0/src/loadgen/main.go)\<close>

subsection \<open>runQuery\<close>

text \<open>
  The anonymous struct \<open>r\<close> that \<open>json.Unmarshal\<close> fills: one field, \<open>Matched\<close>,
  tagged \<open>match_count\<close>.
\<close>

record query_result =
  Matched :: int

definition zero_result :: query_result where
  "zero_result = \<lparr>Matched = 0\<rparr>"

text \<open>
  The calls of \<open>runQuery\<close> that leave the program: \<open>reqURL.String()\<close> after the query
  string has been set, \<open>http.Get\<close>, \<open>io.ReadAll\<close> on the response body, and
  \<open>json.Unmarshal\<close>, which receives the data and the struct to fill and gives back its
  error and the struct as it left it.
\<close>

record 'body net =
  request_url :: "string \<Rightarrow> string"
  http_Get :: "string \<Rightarrow> error + 'body"
  io_ReadAll :: "'body \<Rightarrow> error + string"
  json_Unmarshal :: "string \<Rightarrow> query_result \<Rightarrow> error option \<times> query_result"

definition runQuery :: "'body net \<Rightarrow> string \<Rightarrow> int \<times> error option" where
  "runQuery env s =
     (let u = request_url env s in
      case http_Get env u of
        Inl err \<Rightarrow>
          (- 1, Some (Error (''error sending request to '' @ u @ '': '' @ message err)))
      | Inr body \<Rightarrow>
          (case io_ReadAll env body of
             Inl err \<Rightarrow>
               (- 1, Some (Error (''error reading response body: '' @ message err)))
           | Inr data \<Rightarrow>
               (case json_Unmarshal env data zero_result of
                  (Some err, r) \<Rightarrow> (- 1, Some err)
                | (None, r) \<Rightarrow> (Matched r, None))))"

text \<open>A network in which the service answers every request with the count 3040.\<close>

definition answering_net :: "string net" where
  "answering_net =
     \<lparr>request_url = (\<lambda>s. ''http://localhost:8080?q='' @ s),
      http_Get = (\<lambda>u. Inr ''3040''),
      io_ReadAll = (\<lambda>b. Inr b),
      json_Unmarshal = (\<lambda>d r. (None, r\<lparr>Matched := 3040\<rparr>))\<rparr>"

text \<open>A network in which no request can be sent.\<close>

definition refusing_net :: "string net" where
  "refusing_net =
     \<lparr>request_url = (\<lambda>s. ''http://localhost:8080?q='' @ s),
      http_Get = (\<lambda>u. Inl (Error ''connection refused'')),
      io_ReadAll = (\<lambda>b. Inr b),
      json_Unmarshal = (\<lambda>d r. (None, r))\<rparr>"

subsection \<open>The timer loop of main\<close>

text \<open>
  The counter \<open>i\<close> is a Go \<open>int\<close> (64 bits): \<open>i++\<close> wraps from the largest value to
  the smallest.
\<close>

definition maxInt64 :: int where
  "maxInt64 = 2 ^ 63 - 1"

definition minInt64 :: int where
  "minInt64 = - (2 ^ 63)"

definition incr :: "int \<Rightarrow> int" where
  "incr i = (if i = maxInt64 then minInt64 else i + 1)"

text \<open>
  \<open>for range t.C\<close>: the ticker never stops, so every iteration gets its tick. One
  iteration calls \<open>run\<close> once, then leaves the loop when
  \<open>numRounds != 0 && i > numRounds\<close>, and increments \<open>i\<close> otherwise. The function
  returns the number of calls of \<open>run\<close> made when the loop is left, started at round
  \<open>i\<close> with \<open>runs\<close> calls already made; a loop that is never left has no value
  (\<open>None\<close>).
\<close>

partial_function (option) main_loop :: "int \<Rightarrow> int \<Rightarrow> nat \<Rightarrow> nat option" where
  "main_loop numRounds i runs =
     (let runs' = Suc runs in
      if numRounds \<noteq> 0 \<and> i > numRounds then Some runs'
      else main_loop numRounds (incr i) runs')"

text \<open>
  The same loop on a ticker that delivers only \<open>ticks\<close> ticks: the number of calls of
  \<open>run\<close> made, and whether the loop was left by \<open>break\<close>.
\<close>

fun main_ticks :: "int \<Rightarrow> nat \<Rightarrow> int \<Rightarrow> nat \<Rightarrow> nat \<times> bool" where
  "main_ticks numRounds 0 i runs = (runs, False)"
| "main_ticks numRounds (Suc ticks) i runs =
     (let runs' = Suc runs in
      if numRounds \<noteq> 0 \<and> i > numRounds then (runs', True)
      else main_ticks numRounds ticks (incr i) runs')"

subsection \<open>run: one batch of workers\<close>

text \<open>
  \<open>run\<close> starts \<open>workers\<close> goroutines and then receives from them. Its executions are
  the interleavings of the steps of these goroutines with its own receiving loop, so it
  is modelled as a transition system. The state of one worker goroutine is the point it
  has reached:
  \<^item> \<open>Waiting\<close>: started, before \<open>concCh <- true\<close>;
  \<^item> \<open>Querying\<close>: the permit is held, the inner function (\<open>runQuery\<close> and \<open>check\<close>)
    is running;
  \<^item> \<open>Sending r\<close>: the inner function has returned \<open>r\<close>, the goroutine is at
    \<open>respErrCh <- r\<close>;
  \<^item> \<open>Releasing\<close>: the send is done, the deferred \<open><-concCh\<close> is next;
  \<^item> \<open>Exited\<close>: the deferred function has run.
\<close>

datatype worker = Waiting | Querying | Sending "error option" | Releasing | Exited

text \<open>
  The caller is in its receiving loop with \<open>i\<close> values received, or it has returned, or
  it has panicked.
\<close>

datatype run_pc = Receiving nat | Returned "error option" | Panicked

text \<open>
  \<open>concCh\<close> is a buffered channel on which only \<open>true\<close> is sent: its content is the
  number of values in its buffer. \<open>respErrCh\<close> is unbuffered and holds nothing: a send
  on it and the caller's receive are one step. \<open>received\<close> records the values the caller
  has received from it so far, in order.
\<close>

record run_state =
  tasks :: "worker list"
  concCh :: nat
  caller :: run_pc
  received :: "error option list"

text \<open>
  The state after the two \<open>make\<close> calls and the loop of \<open>go\<close> statements.
  \<open>make(chan bool, concurrency)\<close> panics for a negative size. A goroutine that has not
  been started yet cannot be told from one that waits before its first statement, so all
  of them are there from the start. The receiving loop is entered when \<open>0 < workers\<close>;
  otherwise \<open>run\<close> returns nil at once.
\<close>

definition run_init :: "int \<Rightarrow> int \<Rightarrow> run_state" where
  "run_init workers concurrency =
     (if concurrency < 0 then
        \<lparr>tasks = [], concCh = 0, caller = Panicked, received = []\<rparr>
      else
        \<lparr>tasks = replicate (nat workers) Waiting, concCh = 0,
         caller = (if 0 < workers then Receiving 0 else Returned None),
         received = []\<rparr>)"

text \<open>
  The steps:
  \<^item> \<open>Acquire k\<close>: worker \<open>k\<close> sends on \<open>concCh\<close>, possible while the buffer is not
    full (with capacity 0 a send needs a receiver, and the only receives on \<open>concCh\<close>
    are the deferred ones, which come after a send: no send is possible);
  \<^item> \<open>Finish k r\<close>: the inner function of worker \<open>k\<close> returns \<open>r\<close>, the error of
    \<open>runQuery\<close> or nil;
  \<^item> \<open>Deliver k\<close>: worker \<open>k\<close> sends its result on \<open>respErrCh\<close> and the caller, in its
    loop, receives it: on an error the caller returns it, otherwise it goes on to the
    next iteration, or returns nil after the last one;
  \<^item> \<open>Release k\<close>: the deferred function of worker \<open>k\<close> receives from \<open>concCh\<close>.
  A step that is not possible in a state gives \<open>None\<close>.
\<close>

datatype action = Acquire nat | Finish nat "error option" | Deliver nat | Release nat

fun step :: "int \<Rightarrow> int \<Rightarrow> action \<Rightarrow> run_state \<Rightarrow> run_state option" where
  "step workers concurrency (Acquire k) s =
     (if k < length (tasks s) \<and> tasks s ! k = Waiting \<and> int (concCh s) < concurrency
      then Some (s\<lparr>tasks := (tasks s)[k := Querying], concCh := Suc (concCh s)\<rparr>)
      else None)"
| "step workers concurrency (Finish k r) s =
     (if k < length (tasks s) \<and> tasks s ! k = Querying
      then Some (s\<lparr>tasks := (tasks s)[k := Sending r]\<rparr>)
      else None)"
| "step workers concurrency (Deliver k) s =
     (if k < length (tasks s) then
        (case (tasks s ! k, caller s) of
           (Sending r, Receiving i) \<Rightarrow>
             Some (s\<lparr>tasks := (tasks s)[k := Releasing],
                     received := received s @ [r],
                     caller := (case r of
                                  Some err \<Rightarrow> Returned (Some err)
                                | None \<Rightarrow> if int (Suc i) < workers then Receiving (Suc i)
                                          else Returned None)\<rparr>)
         | _ \<Rightarrow> None)
      else None)"
| "step workers concurrency (Release k) s =
     (if k < length (tasks s) \<and> tasks s ! k = Releasing \<and> 0 < concCh s
      then Some (s\<lparr>tasks := (tasks s)[k := Exited], concCh := concCh s - 1\<rparr>)
      else None)"

text \<open>An execution: the steps of a schedule, one after the other.\<close>

fun exec :: "int \<Rightarrow> int \<Rightarrow> action list \<Rightarrow> run_state \<Rightarrow> run_state option" where
  "exec workers concurrency [] s = Some s"
| "exec workers concurrency (a # as) s =
     (case step workers concurrency a s of
        None \<Rightarrow> None
      | Some s' \<Rightarrow> exec workers concurrency as s')"

text \<open>
  What \<open>run\<close> returns along a schedule: the value the caller has returned in the state
  the schedule leads to, if the schedule is an execution and the caller has returned at
  its end.
\<close>

definition run :: "int \<Rightarrow> int \<Rightarrow> action list \<Rightarrow> error option option" where
  "run workers concurrency sched =
     (case exec workers concurrency sched (run_init workers concurrency) of
        None \<Rightarrow> None
      | Some s \<Rightarrow> (case caller s of Returned r \<Rightarrow> Some r | _ \<Rightarrow> None))"

text \<open>
  The steps that are possible in a state. Whether the inner function of a worker can
  return does not depend on what it returns, so \<open>Finish k None\<close> stands for every
  \<open>Finish k r\<close>.
\<close>

definition candidates :: "run_state \<Rightarrow> action list" where
  "candidates s =
     concat (map (\<lambda>k. [Acquire k, Finish k None, Deliver k, Release k])
               [0 ..< length (tasks s)])"

definition enabled :: "int \<Rightarrow> int \<Rightarrow> run_state \<Rightarrow> action list" where
  "enabled workers concurrency s =
     filter (\<lambda>a. step workers concurrency a s \<noteq> None) (candidates s)"

text \<open>
  A worker holds a permit from its send on \<open>concCh\<close> until its deferred receive. A worker
  has reported back when its send on \<open>respErrCh\<close> is done.
\<close>

fun holds_permit :: "worker \<Rightarrow> bool" where
  "holds_permit Waiting = False"
| "holds_permit Querying = True"
| "holds_permit (Sending r) = True"
| "holds_permit Releasing = True"
| "holds_permit Exited = False"

fun has_reported :: "worker \<Rightarrow> bool" where
  "has_reported Releasing = True"
| "has_reported Exited = True"
| "has_reported w = False"

definition permits_held :: "run_state \<Rightarrow> nat" where
  "permits_held s = length (filter holds_permit (tasks s))"

definition in_query :: "run_state \<Rightarrow> nat" where
  "in_query s = length (filter (\<lambda>w. w = Querying) (tasks s))"

definition reported :: "run_state \<Rightarrow> nat" where
  "reported s = length (filter has_reported (tasks s))"

text \<open>The number of steps a worker still has to make, and their sum over a state.\<close>

fun steps_left :: "worker \<Rightarrow> nat" where
  "steps_left Waiting = 4"
| "steps_left Querying = 3"
| "steps_left (Sending r) = 2"
| "steps_left Releasing = 1"
| "steps_left Exited = 0"

definition work_left :: "run_state \<Rightarrow> nat" where
  "work_left s = sum_list (map steps_left (tasks s))"

text \<open>
  What holds in every state of an execution: the permits held are the values in the
  buffer of \<open>concCh\<close>, which are no more than its capacity; the workers that have
  reported back are as many as the values received; and the caller is where the values it
  has received put it.
\<close>

definition run_inv :: "int \<Rightarrow> int \<Rightarrow> run_state \<Rightarrow> bool" where
  "run_inv workers concurrency s =
     (permits_held s = concCh s \<and> concCh s \<le> nat concurrency \<and>
      reported s = length (received s) \<and>
      (case caller s of
         Receiving i \<Rightarrow>
           length (tasks s) = nat workers \<and> int i < workers \<and> received s = replicate i None
       | Returned None \<Rightarrow>
           length (tasks s) = nat workers \<and> received s = replicate (nat workers) None
       | Returned (Some err) \<Rightarrow>
           length (tasks s) = nat workers \<and>
           (\<exists>i. int i < workers \<and> received s = replicate i None @ [Some err])
       | Panicked \<Rightarrow> tasks s = [] \<and> received s = []))"

text \<open>
  Four states that executions of small batches reach: two workers of whom the first has
  reported an error while the second is still in its query; two workers and one permit,
  where the first worker has failed and exited and the second has failed too and is at
  its send; three workers and two permits, both taken; two workers and one permit, where
  both workers have reported nil.
\<close>

definition refused :: error where
  "refused = Error ''connection refused''"

definition early_state :: run_state where
  "early_state =
     \<lparr>tasks = [Releasing, Querying], concCh = 2,
      caller = Returned (Some refused), received = [Some refused]\<rparr>"

definition stranded_state :: run_state where
  "stranded_state =
     \<lparr>tasks = [Exited, Sending (Some refused)], concCh = 1,
      caller = Returned (Some refused), received = [Some refused]\<rparr>"

definition busy_state :: run_state where
  "busy_state =
     \<lparr>tasks = [Sending None, Waiting, Querying], concCh = 2,
      caller = Receiving 0, received = []\<rparr>"

definition done_state :: run_state where
  "done_state =
     \<lparr>tasks = [Exited, Releasing], concCh = 1,
      caller = Returned None, received = [None, None]\<rparr>"

section \<open>Server (step6/src/server/main.go)\<close>

subsection \<open>GetMatchCount\<close>

text \<open>
  The request and response messages of the service. \<open>MatchCount\<close> is an \<open>int64\<close>:
  \<open>resp.MatchCount++\<close> wraps.
\<close>

record ShakespeareRequest =
  Query :: string

record ShakespeareResponse =
  MatchCount :: "64 word"

text \<open>
  The library calls of \<open>GetMatchCount\<close>: \<open>strings.ToLower\<close>, the compilation of a
  pattern (\<open>regexp.Compile\<close>, which \<open>regexp.MustCompile\<close> wraps) and
  \<open>(*Regexp).MatchString\<close>.
\<close>

record 're textlib =
  strings_ToLower :: "string \<Rightarrow> string"
  regexp_Compile :: "string \<Rightarrow> error + 're"
  MatchString :: "'re \<Rightarrow> string \<Rightarrow> bool"

text \<open>A call either returns its results or panics.\<close>

datatype 'a outcome = Returns 'a | Panics error

definition newline :: char where
  "newline = CHR 0x0A"

text \<open>
  \<open>strings.Split(text, "\n")\<close>: the pieces between the newlines, one more than there
  are newlines; the empty text gives one empty line.
\<close>

fun split_lines :: "string \<Rightarrow> string list" where
  "split_lines [] = [[]]"
| "split_lines (c # cs) =
     (if c = newline then [] # split_lines cs
      else (case split_lines cs of
              [] \<Rightarrow> [[c]]
            | l # ls \<Rightarrow> (c # l) # ls))"

text \<open>The inner loop, over the lines of one text, with the counter \<open>resp.MatchCount\<close> passed through.\<close>

fun count_lines :: "'re textlib \<Rightarrow> 're \<Rightarrow> string list \<Rightarrow> 64 word \<Rightarrow> 64 word" where
  "count_lines lib re [] n = n"
| "count_lines lib re (line # rest) n =
     (let line' = strings_ToLower lib line;
          isMatch = MatchString lib re line'
      in count_lines lib re rest (if isMatch then n + 1 else n))"

text \<open>The outer loop, over the texts.\<close>

fun count_texts :: "'re textlib \<Rightarrow> 're \<Rightarrow> string list \<Rightarrow> 64 word \<Rightarrow> 64 word" where
  "count_texts lib re [] n = n"
| "count_texts lib re (text # rest) n =
     count_texts lib re rest (count_lines lib re (split_lines text) n)"

text \<open>
  \<open>GetMatchCount\<close>, given what \<open>readFiles\<close> returned: the texts and the error. A
  retrieval error is returned at once, wrapped, with the fresh response. Otherwise the
  lowercased query is compiled by \<open>regexp.MustCompile\<close>, which panics when the pattern
  does not compile, and the lines are counted.
\<close>

definition GetMatchCount ::
  "'re textlib \<Rightarrow> string list \<times> error option \<Rightarrow> ShakespeareRequest
     \<Rightarrow> (ShakespeareResponse \<times> error option) outcome" where
  "GetMatchCount lib files req =
     (let resp = \<lparr>MatchCount = 0\<rparr> in
      case files of
        (texts, Some err) \<Rightarrow>
          Returns (resp, Some (Error (''fails to read files: '' @ message err)))
      | (texts, None) \<Rightarrow>
          (let query = strings_ToLower lib (Query req) in
           case regexp_Compile lib query of
             Inl err \<Rightarrow> Panics err
           | Inr re \<Rightarrow>
               Returns (resp\<lparr>MatchCount := count_texts lib re texts (MatchCount resp)\<rparr>, None)))"

subsection \<open>The count in the words of the specification\<close>

text \<open>
  The number of lines of one text whose lowercased form the matcher accepts, and the sum
  of these numbers over a corpus.
\<close>

definition matching_lines :: "'re textlib \<Rightarrow> 're \<Rightarrow> string \<Rightarrow> nat" where
  "matching_lines lib re text =
     length (filter (\<lambda>line. MatchString lib re (strings_ToLower lib line)) (split_lines text))"

definition total_matches :: "'re textlib \<Rightarrow> 're \<Rightarrow> string list \<Rightarrow> nat" where
  "total_matches lib re texts = sum_list (map (matching_lines lib re) texts)"

subsection \<open>A text library for patterns without metacharacters\<close>

text \<open>
  On a pattern made of letters, digits, spaces, commas and apostrophes only, a regular
  expression matches a line exactly when the line contains the pattern. The stand-in
  below compiles such patterns to themselves and refuses every other pattern; among the
  refused ones is \<open>(\<close>, an unclosed group, which no regular expression syntax accepts.
  Lowercasing is that of ASCII letters.
\<close>

definition ascii_lower :: "char \<Rightarrow> char" where
  "ascii_lower c =
     (let n = (of_char c :: nat) in if 65 \<le> n \<and> n \<le> 90 then char_of (n + 32) else c)"

definition literal_char :: "char \<Rightarrow> bool" where
  "literal_char c =
     (let n = (of_char c :: nat) in
      (65 \<le> n \<and> n \<le> 90) \<or> (97 \<le> n \<and> n \<le> 122) \<or> (48 \<le> n \<and> n \<le> 57)
      \<or> n = 32 \<or> n = 44 \<or> n = 39)"

fun has_prefix :: "string \<Rightarrow> string \<Rightarrow> bool" where
  "has_prefix s [] = True"
| "has_prefix [] (p # ps) = False"
| "has_prefix (c # cs) (p # ps) = (c = p \<and> has_prefix cs ps)"

fun contains :: "string \<Rightarrow> string \<Rightarrow> bool" where
  "contains [] sub = (sub = [])"
| "contains (c # cs) sub = (has_prefix (c # cs) sub \<or> contains cs sub)"

definition literal_lib :: "string textlib" where
  "literal_lib =
     \<lparr>strings_ToLower = map ascii_lower,
      regexp_Compile =
        (\<lambda>p. if list_all literal_char p then Inr p
             else Inl (Error (''error parsing regexp: '' @ p))),
      MatchString = (\<lambda>re line. contains line re)\<rparr>"

text \<open>
  Go writes a named group \<open>(?P<name>re)\<close>, with an upper-case \<open>P\<close>; the same text
  with a lower-case \<open>p\<close> is not a pattern. The second stand-in knows, besides the
  patterns without metacharacters, the one pattern \<open>(?P<w>love)\<close>, which matches the
  lines that contain \<open>love\<close>.
\<close>

definition group_lib :: "string textlib" where
  "group_lib =
     \<lparr>strings_ToLower = map ascii_lower,
      regexp_Compile =
        (\<lambda>p. if p = ''(?P<w>love)'' then Inr ''love''
             else if list_all literal_char p then Inr p
             else Inl (Error (''error parsing regexp: '' @ p))),
      MatchString = (\<lambda>re line. contains line re)\<rparr>"

text \<open>Texts are written as their lines, joined by newlines.\<close>

fun join_lines :: "string list \<Rightarrow> string" where
  "join_lines [] = []"
| "join_lines [l] = l"
| "join_lines (l # ls) = l @ newline # join_lines ls"

definition love_corpus :: "string list" where
  "love_corpus =
     [join_lines [''Love looks not with the eyes'', ''but with the mind'', ''I love thee''],
      join_lines [''my LOVE is deep'', ''the more I give''],
      join_lines [''to be, or not to be'']]"

subsection \<open>readFiles\<close>

text \<open>
  What the object store does for one object: the reader is opened and read to the end;
  or it is opened and \<open>ioutil.ReadAll\<close> fails, giving the data read so far and the
  error; or \<open>NewReader\<close> fails, giving a nil reader and the error.
\<close>

datatype fetch = FetchOk string | ReadError string error | OpenError error

text \<open>
  The object store as \<open>readFiles\<close> sees it: the error of \<open>storage.NewClient\<close>, the
  results of the calls of \<open>it.Next()\<close> up to \<open>iterator.Done\<close> (an error, or the name
  in the attributes), and the fetch of each object.
\<close>

record store =
  NewClient :: "error option"
  Objects :: "(error + string) list"
  Fetch :: "string \<Rightarrow> fetch"

text \<open>The local struct \<open>resp\<close>.\<close>

record resp =
  resp_s :: string
  resp_err :: "error option"

text \<open>
  The listing loop: it ends at \<open>iterator.Done\<close> with the paths, ends \<open>readFiles\<close> at any
  other error, and appends the names that are not empty.
\<close>

fun list_paths :: "(error + string) list \<Rightarrow> string list \<Rightarrow> error + string list" where
  "list_paths [] paths = Inr paths"
| "list_paths (Inl err # rest) paths = Inl err"
| "list_paths (Inr name # rest) paths =
     list_paths rest (if name \<noteq> [] then paths @ [name] else paths)"

text \<open>
  The value a goroutine sends first: \<open>resp{"", err}\<close> when \<open>NewReader\<close> failed,
  \<open>resp{string(data), err}\<close> after \<open>ioutil.ReadAll\<close> otherwise.
\<close>

fun response :: "fetch \<Rightarrow> resp" where
  "response (OpenError err) = \<lparr>resp_s = [], resp_err = Some err\<rparr>"
| "response (ReadError data err) = \<lparr>resp_s = data, resp_err = Some err\<rparr>"
| "response (FetchOk data) = \<lparr>resp_s = data, resp_err = None\<rparr>"

fun open_fails :: "fetch \<Rightarrow> bool" where
  "open_fails (OpenError err) = True"
| "open_fails f = False"

text \<open>
  The fan-out is a transition system, as for \<open>run\<close>. A goroutine is \<open>Fetching\<close> until
  its first send on \<open>resps\<close> is received. After the send of a \<open>NewReader\<close> error the
  goroutine does not return: it has \<open>FellThrough\<close> to \<open>defer r.Close()\<close> and
  \<open>ioutil.ReadAll(r)\<close> with the nil reader. In every other case it has \<open>Finished\<close>.
\<close>

datatype goroutine = Fetching | FellThrough | Finished

datatype rf_pc = Collecting | RfReturned | Crashed

text \<open>
  The state: the paths, the goroutines (one for each path), and the variables of the
  collecting loop, \<open>i\<close>, \<open>ret\<close> and \<open>err\<close>.
\<close>

record rf_state =
  paths :: "string list"
  routines :: "goroutine list"
  idx :: nat
  ret :: "string list"
  rf_err :: "error option"
  pc :: rf_pc

text \<open>
  \<open>readFiles\<close> up to the collecting loop. The two early returns give an empty slice and
  a wrapped error. Otherwise there is one goroutine for each path,
  \<open>ret = make([]string, len(paths))\<close> holds empty strings, \<open>err\<close> is the nil error of
  \<open>storage.NewClient\<close>, and the loop is entered when there is a path; with no path
  \<open>readFiles\<close> returns \<open>ret, err\<close> at once.
\<close>

definition rf_init :: "store \<Rightarrow> string \<Rightarrow> string \<Rightarrow> rf_state" where
  "rf_init st bucketName prefix =
     (case NewClient st of
        Some err \<Rightarrow>
          \<lparr>paths = [], routines = [], idx = 0, ret = [],
           rf_err = Some (Error (''failed to create storage client: '' @ message err)),
           pc = RfReturned\<rparr>
      | None \<Rightarrow>
          (case list_paths (Objects st) [] of
             Inl err \<Rightarrow>
               \<lparr>paths = [], routines = [], idx = 0, ret = [],
                rf_err = Some (Error (''failed to iterate over files in '' @ bucketName
                                      @ '' starting with '' @ prefix @ '': '' @ message err)),
                pc = RfReturned\<rparr>
           | Inr ps \<Rightarrow>
               \<lparr>paths = ps, routines = replicate (length ps) Fetching, idx = 0,
                ret = replicate (length ps) [], rf_err = None,
                pc = (if 0 < length ps then Collecting else RfReturned)\<rparr>))"

text \<open>
  The steps:
  \<^item> \<open>Recv k\<close>: goroutine \<open>k\<close> sends its first value and the collecting loop receives
    it: a non-nil error is stored in \<open>err\<close>, the string is stored in \<open>ret[i]\<close>, and
    after the last iteration \<open>readFiles\<close> returns;
  \<^item> \<open>NilRead k\<close>: goroutine \<open>k\<close>, fallen through, reads from its nil reader. This
    dereferences a nil pointer: the goroutine panics, which ends the program.
\<close>

datatype rf_action = Recv nat | NilRead nat

fun rf_step :: "store \<Rightarrow> rf_action \<Rightarrow> rf_state \<Rightarrow> rf_state option" where
  "rf_step st (Recv k) s =
     (if pc s = Collecting \<and> k < length (routines s) \<and> k < length (paths s)
         \<and> routines s ! k = Fetching
      then
        (let f = Fetch st (paths s ! k);
             r = response f
         in Some (s\<lparr>routines := (routines s)[k := if open_fails f then FellThrough
                                                  else Finished],
                    rf_err := (if resp_err r \<noteq> None then resp_err r else rf_err s),
                    ret := (ret s)[idx s := resp_s r],
                    idx := Suc (idx s),
                    pc := (if Suc (idx s) < length (paths s) then Collecting
                           else RfReturned)\<rparr>))
      else None)"
| "rf_step st (NilRead k) s =
     (if pc s \<noteq> Crashed \<and> k < length (routines s) \<and> routines s ! k = FellThrough
      then Some (s\<lparr>pc := Crashed\<rparr>)
      else None)"

fun rf_exec :: "store \<Rightarrow> rf_action list \<Rightarrow> rf_state \<Rightarrow> rf_state option" where
  "rf_exec st [] s = Some s"
| "rf_exec st (a # as) s =
     (case rf_step st a s of
        None \<Rightarrow> None
      | Some s' \<Rightarrow> rf_exec st as s')"

text \<open>What \<open>readFiles\<close> has returned in a state, if it has returned.\<close>

definition rf_result :: "rf_state \<Rightarrow> (string list \<times> error option) option" where
  "rf_result s = (if pc s = RfReturned then Some (ret s, rf_err s) else None)"

definition rf_enabled :: "store \<Rightarrow> rf_state \<Rightarrow> rf_action list" where
  "rf_enabled st s =
     filter (\<lambda>a. rf_step st a s \<noteq> None)
       (concat (map (\<lambda>k. [Recv k, NilRead k]) [0 ..< length (routines s)]))"

text \<open>The paths whose goroutine has had its first value received.\<close>

definition delivered :: "goroutine list \<Rightarrow> string list \<Rightarrow> string list" where
  "delivered gs ps = map snd (filter (\<lambda>(g, p). g \<noteq> Fetching) (zip gs ps))"

text \<open>
  What holds in every state of an execution over the paths \<open>ps\<close>: the first \<open>i\<close>
  entries of \<open>ret\<close> are the strings of the values received, and \<open>err\<close> is the error of
  one of them, nil only if all of them had a nil error.
\<close>

definition rf_inv :: "store \<Rightarrow> string list \<Rightarrow> rf_state \<Rightarrow> bool" where
  "rf_inv st ps s =
     (paths s = ps \<and> length (routines s) = length ps \<and> length (ret s) = length ps \<and>
      idx s = length (delivered (routines s) ps) \<and>
      (pc s = Collecting \<longrightarrow> idx s < length ps) \<and>
      (pc s = RfReturned \<longrightarrow> idx s = length ps) \<and>
      mset (take (idx s) (ret s))
        = image_mset (\<lambda>p. resp_s (response (Fetch st p))) (mset (delivered (routines s) ps)) \<and>
      (rf_err s = None \<longrightarrow>
         (\<forall>p \<in> set (delivered (routines s) ps). resp_err (response (Fetch st p)) = None)) \<and>
      (rf_err s \<noteq> None \<longrightarrow>
         (\<exists>p \<in> set (delivered (routines s) ps). rf_err s = resp_err (response (Fetch st p)))) \<and>
      (FellThrough \<in> set (routines s) \<longrightarrow> (\<exists>p \<in> set ps. open_fails (Fetch st p))))"

text \<open>
  Two stores. In the first, objects \<open>a\<close> and \<open>b\<close> are listed, \<open>a\<close> is fetched and the
  read of \<open>b\<close> fails after two bytes. In the second, \<open>b\<close> cannot be opened.
\<close>

definition timeout :: error where
  "timeout = Error ''context deadline exceeded''"

definition notfound :: error where
  "notfound = Error ''storage: object doesn't exist''"

definition read_fail_store :: store where
  "read_fail_store =
     \<lparr>NewClient = None, Objects = [Inr ''a'', Inr ''b''],
      Fetch = (\<lambda>p. if p = ''a'' then FetchOk ''alpha'' else ReadError ''be'' timeout)\<rparr>"

definition open_fail_store :: store where
  "open_fail_store =
     \<lparr>NewClient = None, Objects = [Inr ''a'', Inr ''b''],
      Fetch = (\<lambda>p. if p = ''a'' then FetchOk ''alpha'' else OpenError notfound)\<rparr>"

definition empty_store :: store where
  "empty_store =
     \<lparr>NewClient = None, Objects = [Inr ''''],
      Fetch = (\<lambda>p. OpenError notfound)\<rparr>"

text \<open>
  What \<open>readFiles\<close> returns along a schedule: the result in the state the schedule leads
  to, if the schedule is an execution and \<open>readFiles\<close> has returned at its end.
\<close>

definition readFiles ::
  "store \<Rightarrow> string \<Rightarrow> string \<Rightarrow> rf_action list \<Rightarrow> (string list \<times> error option) option" where
  "readFiles st bucketName prefix sched =
     Option.bind (rf_exec st sched (rf_init st bucketName prefix)) rf_result"

section \<open>Properties of the load generator\<close>

subsection \<open>runQuery\<close>

text \<open>
  C10. Whenever \<open>runQuery\<close> returns a non-nil error (the request could not be sent, the
  body could not be read, or the body could not be decoded) the count it returns is
  \<open>-1\<close>; whenever it returns a nil error, the request was sent, the body was read and
  decoded without error, and the count is the \<open>match_count\<close> field of the decoded
  struct.
\<close>

theorem runQuery_count:
  "(snd (runQuery env s) \<noteq> None \<longrightarrow> fst (runQuery env s) = - 1) \<and>
   (snd (runQuery env s) = None \<longrightarrow>
      (\<exists>body data r.
         http_Get env (request_url env s) = Inr body \<and>
         io_ReadAll env body = Inr data \<and>
         json_Unmarshal env data zero_result = (None, r) \<and>
         fst (runQuery env s) = Matched r))"
  by (auto simp: runQuery_def Let_def split: sum.splits prod.splits option.splits)

theorem runQuery_count_witness:
  "snd (runQuery refusing_net ''love'') \<noteq> None \<and>
   fst (runQuery refusing_net ''love'') = - 1 \<and>
   snd (runQuery answering_net ''love'') = None \<and>
   fst (runQuery answering_net ''love'') = 3040"
proof -
  have a: "snd (runQuery refusing_net ''love'') \<noteq> None"
    by (simp add: runQuery_def refusing_net_def)
  have b: "snd (runQuery answering_net ''love'') = None"
    by (simp add: runQuery_def answering_net_def)
  have c: "fst (runQuery answering_net ''love'') = 3040"
    using runQuery_count [of answering_net "''love''"] b
    by (auto simp: answering_net_def zero_result_def)
  show ?thesis
    using runQuery_count [of refusing_net "''love''"] a b c by blast
qed

subsection \<open>The timer loop\<close>

lemma main_loop_returns_nonzero:
  "main_loop numRounds i runs = Some y \<Longrightarrow> numRounds \<noteq> 0"
  by (rule main_loop.raw_induct [where P = "\<lambda>n i runs y. n \<noteq> 0"])
    (auto simp: Let_def split: if_splits)

lemma main_loop_zero_forever: "main_loop 0 i runs = None"
proof (cases "main_loop 0 i runs")
  case None
  then show ?thesis .
next
  case (Some y)
  then show ?thesis
    using main_loop_returns_nonzero [of 0 i runs y] by simp
qed

lemma main_ticks_zero: "main_ticks 0 ticks i runs = (runs + ticks, False)"
  by (induction ticks arbitrary: i runs) (simp_all add: Let_def)

lemma main_loop_from:
  assumes "0 < numRounds" and "numRounds < maxInt64" and "0 \<le> i" and "i \<le> numRounds + 1"
  shows "main_loop numRounds i runs = Some (runs + nat (numRounds + 2 - i))"
  using assms
proof (induction "nat (numRounds + 1 - i)" arbitrary: i runs)
  case 0
  then have i: "i = numRounds + 1" by simp
  show ?case
    using "0.prems" by (subst main_loop.simps) (simp add: i Let_def)
next
  case (Suc k)
  then have le: "i \<le> numRounds" and ne: "i \<noteq> maxInt64" by simp_all
  have k: "k = nat (numRounds + 1 - incr i)"
    using Suc.hyps(2) ne by (simp add: incr_def)
  have "main_loop numRounds (incr i) (Suc runs)
          = Some (Suc runs + nat (numRounds + 2 - incr i))"
    using Suc.hyps(1) [OF k] Suc.prems le ne by (simp add: incr_def)
  moreover have "Suc runs + nat (numRounds + 2 - incr i) = runs + nat (numRounds + 2 - i)"
    using le ne Suc.prems by (simp add: incr_def)
  ultimately show ?case
    using le by (subst main_loop.simps) (simp add: Let_def)
qed

lemma main_loop_positive:
  "0 < numRounds \<Longrightarrow> numRounds < maxInt64 \<Longrightarrow> main_loop numRounds 0 0 = Some (nat numRounds + 2)"
  using main_loop_from [of numRounds 0 0] by (simp add: nat_add_distrib)

text \<open>
  C8. With \<open>numRounds = 1\<close> the loop is left after three calls of \<open>run\<close> (rounds 0, 1
  and 2), not after one: the test \<open>i > numRounds\<close> is made before \<open>i\<close> is incremented
  and \<open>i\<close> starts at 0.
\<close>

theorem main_loop_one_round: "main_loop 1 0 0 = Some 3"
  by (simp add: main_loop.simps incr_def maxInt64_def)

subsection \<open>run: what holds in every state\<close>

lemma filter_update_length:
  "k < length xs \<Longrightarrow>
   length (filter P (xs[k := y])) + (if P (xs ! k) then 1 else 0)
     = length (filter P xs) + (if P y then 1 else 0)"
proof (induction xs arbitrary: k)
  case Nil
  then show ?case by simp
next
  case (Cons x xs)
  then show ?case by (cases k) auto
qed

lemma sum_update:
  "k < length xs \<Longrightarrow>
   sum_list (map f (xs[k := y])) + f (xs ! k) = sum_list (map f xs) + (f y :: nat)"
proof (induction xs arbitrary: k)
  case Nil
  then show ?case by simp
next
  case (Cons x xs)
  then show ?case by (cases k) auto
qed

lemma filter_replicate_none: "\<not> P x \<Longrightarrow> filter P (replicate n x) = []"
  by (induction n) simp_all

lemma run_inv_init: "run_inv workers concurrency (run_init workers concurrency)"
  by (simp add: run_inv_def run_init_def permits_held_def reported_def
      filter_replicate_none)

lemma run_inv_acquire:
  assumes "run_inv workers concurrency s"
    and "step workers concurrency (Acquire k) s = Some s'"
  shows "run_inv workers concurrency s'"
proof -
  from assms(2) have k: "k < length (tasks s)" and w: "tasks s ! k = Waiting"
    and c: "int (concCh s) < concurrency"
    and s': "s' = s\<lparr>tasks := (tasks s)[k := Querying], concCh := Suc (concCh s)\<rparr>"
    by (auto split: if_splits)
  have "permits_held s' = Suc (permits_held s)"
    using filter_update_length [OF k, of holds_permit Querying] w
    by (simp add: s' permits_held_def)
  moreover have "reported s' = reported s"
    using filter_update_length [OF k, of has_reported Querying] w
    by (simp add: s' reported_def)
  ultimately show ?thesis
    using assms(1) c by (auto simp: run_inv_def s' split: run_pc.splits option.splits)
qed

lemma run_inv_finish:
  assumes "run_inv workers concurrency s"
    and "step workers concurrency (Finish k r) s = Some s'"
  shows "run_inv workers concurrency s'"
proof -
  from assms(2) have k: "k < length (tasks s)" and w: "tasks s ! k = Querying"
    and s': "s' = s\<lparr>tasks := (tasks s)[k := Sending r]\<rparr>"
    by (auto split: if_splits)
  have "permits_held s' = permits_held s"
    using filter_update_length [OF k, of holds_permit "Sending r"] w
    by (simp add: s' permits_held_def)
  moreover have "reported s' = reported s"
    using filter_update_length [OF k, of has_reported "Sending r"] w
    by (simp add: s' reported_def)
  ultimately show ?thesis
    using assms(1) by (auto simp: run_inv_def s' split: run_pc.splits option.splits)
qed

lemma run_inv_deliver:
  assumes "run_inv workers concurrency s"
    and "step workers concurrency (Deliver k) s = Some s'"
  shows "run_inv workers concurrency s'"
proof -
  from assms(2) obtain r i where k: "k < length (tasks s)"
    and w: "tasks s ! k = Sending r" and c: "caller s = Receiving i"
    and s': "s' = s\<lparr>tasks := (tasks s)[k := Releasing],
                    received := received s @ [r],
                    caller := (case r of
                                 Some err \<Rightarrow> Returned (Some err)
                               | None \<Rightarrow> if int (Suc i) < workers then Receiving (Suc i)
                                         else Returned None)\<rparr>"
    by (auto split: if_splits worker.splits run_pc.splits)
  have p: "permits_held s' = permits_held s"
    using filter_update_length [OF k, of holds_permit Releasing] w
    by (simp add: s' permits_held_def)
  have q: "reported s' = Suc (reported s)"
    using filter_update_length [OF k, of has_reported Releasing] w
    by (simp add: s' reported_def)
  from assms(1) c have i: "int i < workers" and rc: "received s = replicate i None"
    and len: "length (tasks s) = nat workers"
    by (simp_all add: run_inv_def)
  have base: "permits_held s' = concCh s' \<and> concCh s' \<le> nat concurrency \<and>
              reported s' = length (received s')"
    using assms(1) p q by (simp add: run_inv_def s')
  show ?thesis
  proof (cases r)
    case (Some err)
    then show ?thesis
      using base i rc len by (auto simp: run_inv_def s')
  next
    case None
    have snoc: "replicate i None @ [None] = replicate (Suc i) (None :: error option)"
      by (simp add: replicate_append_same)
    show ?thesis
    proof (cases "int (Suc i) < workers")
      case True
      then show ?thesis
        using base None rc len snoc by (simp add: run_inv_def s')
    next
      case False
      with i have "nat workers = Suc i" by linarith
      then show ?thesis
        using base None rc len snoc False by (simp add: run_inv_def s')
    qed
  qed
qed

lemma run_inv_release:
  assumes "run_inv workers concurrency s"
    and "step workers concurrency (Release k) s = Some s'"
  shows "run_inv workers concurrency s'"
proof -
  from assms(2) have k: "k < length (tasks s)" and w: "tasks s ! k = Releasing"
    and c: "0 < concCh s"
    and s': "s' = s\<lparr>tasks := (tasks s)[k := Exited], concCh := concCh s - 1\<rparr>"
    by (auto split: if_splits)
  have "permits_held s' + 1 = permits_held s"
    using filter_update_length [OF k, of holds_permit Exited] w
    by (simp add: s' permits_held_def)
  moreover have "reported s' = reported s"
    using filter_update_length [OF k, of has_reported Exited] w
    by (simp add: s' reported_def)
  ultimately show ?thesis
    using assms(1) c by (auto simp: run_inv_def s' split: run_pc.splits option.splits)
qed

lemma run_inv_step:
  "run_inv workers concurrency s \<Longrightarrow> step workers concurrency a s = Some s' \<Longrightarrow>
   run_inv workers concurrency s'"
  by (cases a) (blast intro: run_inv_acquire run_inv_finish run_inv_deliver run_inv_release)+

lemma run_inv_exec:
  "run_inv workers concurrency s \<Longrightarrow> exec workers concurrency sched s = Some s' \<Longrightarrow>
   run_inv workers concurrency s'"
proof (induction sched arbitrary: s)
  case Nil
  then show ?case by simp
next
  case (Cons a sched)
  then show ?case
    by (auto split: option.splits dest: run_inv_step)
qed

lemma run_inv_reachable:
  "exec workers concurrency sched (run_init workers concurrency) = Some s \<Longrightarrow>
   run_inv workers concurrency s"
  using run_inv_exec [OF run_inv_init] .

subsection \<open>run: progress and length of executions\<close>

lemma holder_counted:
  "k < length xs \<Longrightarrow> P (xs ! k) \<Longrightarrow> 0 < length (filter P xs)"
  by (metis filter_empty_conv length_greater_0_conv nth_mem)

lemma filter_le_filter:
  "(\<And>x. P x \<Longrightarrow> Q x) \<Longrightarrow> length (filter P xs) \<le> length (filter Q xs)"
  by (induction xs) auto

lemma candidates_iff:
  "a \<in> set (candidates s) \<longleftrightarrow>
     (\<exists>k < length (tasks s). a = Acquire k \<or> a = Finish k None \<or> a = Deliver k \<or> a = Release k)"
  by (auto simp: candidates_def)

lemma enabledI:
  "a \<in> set (candidates s) \<Longrightarrow> step workers concurrency a s \<noteq> None \<Longrightarrow>
   enabled workers concurrency s \<noteq> []"
  by (auto simp: enabled_def filter_empty_conv)

lemma enabled_empty_iff:
  "enabled workers concurrency s = [] \<longleftrightarrow> (\<forall>a. step workers concurrency a s = None)"
proof
  assume e: "enabled workers concurrency s = []"
  show "\<forall>a. step workers concurrency a s = None"
  proof
    fix a
    show "step workers concurrency a s = None"
    proof (rule ccontr)
      assume n: "step workers concurrency a s \<noteq> None"
      show False
      proof (cases a)
        case (Acquire k)
        with n have "Acquire k \<in> set (candidates s)"
          by (auto simp: candidates_iff split: if_splits)
        with n Acquire e show False using enabledI by blast
      next
        case (Finish k r)
        with n have "Finish k None \<in> set (candidates s)"
          and "step workers concurrency (Finish k None) s \<noteq> None"
          by (auto simp: candidates_iff split: if_splits)
        with e show False using enabledI by blast
      next
        case (Deliver k)
        with n have "Deliver k \<in> set (candidates s)"
          by (auto simp: candidates_iff split: if_splits)
        with n Deliver e show False using enabledI by blast
      next
        case (Release k)
        with n have "Release k \<in> set (candidates s)"
          by (auto simp: candidates_iff split: if_splits)
        with n Release e show False using enabledI by blast
      qed
    qed
  qed
next
  assume "\<forall>a. step workers concurrency a s = None"
  then show "enabled workers concurrency s = []"
    by (simp add: enabled_def)
qed

lemma run_progress:
  assumes inv: "run_inv workers concurrency s"
    and c: "caller s = Receiving i"
    and p: "1 \<le> concurrency"
  shows "enabled workers concurrency s \<noteq> []"
proof -
  consider
    (sending) k r where "k < length (tasks s)" "tasks s ! k = Sending r"
  | (querying) k where "k < length (tasks s)" "tasks s ! k = Querying"
  | (releasing) k where "k < length (tasks s)" "tasks s ! k = Releasing"
  | (rest) "\<forall>w \<in> set (tasks s). w = Waiting \<or> w = Exited"
    by (metis in_set_conv_nth worker.exhaust)
  then show ?thesis
  proof cases
    case sending
    then have "step workers concurrency (Deliver k) s \<noteq> None"
      using c by simp
    moreover have "Deliver k \<in> set (candidates s)"
      using sending by (auto simp: candidates_iff)
    ultimately show ?thesis by (rule enabledI [rotated])
  next
    case querying
    then have "step workers concurrency (Finish k None) s \<noteq> None"
      by simp
    moreover have "Finish k None \<in> set (candidates s)"
      using querying by (auto simp: candidates_iff)
    ultimately show ?thesis by (rule enabledI [rotated])
  next
    case releasing
    then have "0 < permits_held s"
      unfolding permits_held_def by (intro holder_counted [of k]) simp_all
    with inv have "0 < concCh s" by (simp add: run_inv_def)
    with releasing have "step workers concurrency (Release k) s \<noteq> None"
      by simp
    moreover have "Release k \<in> set (candidates s)"
      using releasing by (auto simp: candidates_iff)
    ultimately show ?thesis by (rule enabledI [rotated])
  next
    case rest
    then have "filter holds_permit (tasks s) = []"
      by (auto simp: filter_empty_conv)
    with inv have free: "concCh s = 0"
      by (simp add: run_inv_def permits_held_def)
    show ?thesis
    proof (cases "Waiting \<in> set (tasks s)")
      case True
      then obtain k where k: "k < length (tasks s)" "tasks s ! k = Waiting"
        by (auto simp: in_set_conv_nth)
      then have "step workers concurrency (Acquire k) s \<noteq> None"
        using free p by simp
      moreover have "Acquire k \<in> set (candidates s)"
        using k by (auto simp: candidates_iff)
      ultimately show ?thesis by (rule enabledI [rotated])
    next
      case False
      with rest have "\<forall>w \<in> set (tasks s). has_reported w" by auto
      then have "filter has_reported (tasks s) = tasks s"
        by (simp add: filter_id_conv)
      then have all: "reported s = length (tasks s)"
        by (simp add: reported_def)
      from inv c have "reported s = i" and "length (tasks s) = nat workers"
        and "int i < workers"
        by (simp_all add: run_inv_def)
      with all have False by linarith
      then show ?thesis ..
    qed
  qed
qed

lemma work_left_step:
  assumes "step workers concurrency a s = Some s'"
  shows "Suc (work_left s') = work_left s"
proof (cases a)
  case (Acquire k)
  with assms show ?thesis
    using sum_update [of k "tasks s" steps_left Querying]
    by (auto simp: work_left_def split: if_splits)
next
  case (Finish k r)
  with assms show ?thesis
    using sum_update [of k "tasks s" steps_left "Sending r"]
    by (auto simp: work_left_def split: if_splits)
next
  case (Deliver k)
  with assms show ?thesis
    using sum_update [of k "tasks s" steps_left Releasing]
    by (auto simp: work_left_def split: if_splits worker.splits run_pc.splits)
next
  case (Release k)
  with assms show ?thesis
    using sum_update [of k "tasks s" steps_left Exited]
    by (auto simp: work_left_def split: if_splits)
qed

lemma work_left_exec:
  "exec workers concurrency sched s = Some s' \<Longrightarrow> work_left s' + length sched = work_left s"
proof (induction sched arbitrary: s)
  case Nil
  then show ?case by simp
next
  case (Cons a sched)
  then obtain t where t: "step workers concurrency a s = Some t"
    and r: "exec workers concurrency sched t = Some s'"
    by (auto split: option.splits)
  from Cons.IH [OF r] work_left_step [OF t] show ?case by simp
qed

lemma work_left_init: "work_left (run_init workers concurrency) \<le> 4 * nat workers"
  by (simp add: work_left_def run_init_def sum_list_replicate)

lemma exec_length:
  assumes "exec workers concurrency sched (run_init workers concurrency) = Some s"
  shows "length sched \<le> 4 * nat workers"
  using work_left_exec [OF assms] work_left_init [of workers concurrency] by linarith

lemma run_success_releases_all:
  assumes inv: "run_inv workers concurrency s"
    and c: "caller s = Returned None"
    and e: "enabled workers concurrency s = []"
  shows "permits_held s = 0 \<and> (\<forall>w \<in> set (tasks s). w = Exited)"
proof -
  from inv c have "reported s = length (tasks s)"
    by (simp add: run_inv_def)
  then have all: "\<forall>w \<in> set (tasks s). has_reported w"
    unfolding reported_def by (metis length_filter_less less_irrefl_nat)
  have "w = Exited" if w: "w \<in> set (tasks s)" for w
  proof (rule ccontr)
    assume n: "w \<noteq> Exited"
    from all w have "has_reported w" by blast
    with n have "w = Releasing" by (cases w) simp_all
    with w obtain k where k: "k < length (tasks s)" "tasks s ! k = Releasing"
      by (auto simp: in_set_conv_nth)
    then have "0 < permits_held s"
      unfolding permits_held_def by (intro holder_counted [of k]) simp_all
    with inv have "0 < concCh s" by (simp add: run_inv_def)
    with k have "step workers concurrency (Release k) s \<noteq> None" by simp
    moreover from e have "step workers concurrency (Release k) s = None"
      using enabled_empty_iff by blast
    ultimately show False by blast
  qed
  then have "\<forall>w \<in> set (tasks s). w = Exited" by blast
  moreover from this have "filter holds_permit (tasks s) = []"
    by (auto simp: filter_empty_conv)
  ultimately show ?thesis by (simp add: permits_held_def)
qed

subsection \<open>run: executions of small batches\<close>

lemma exec_busy:
  "exec 3 2 [Acquire 0, Acquire 2, Finish 0 None] (run_init 3 2) = Some busy_state"
  by (simp add: run_init_def busy_state_def numeral_3_eq_3)

lemma exec_early:
  "exec 2 2 [Acquire 0, Acquire 1, Finish 0 (Some refused), Deliver 0] (run_init 2 2)
     = Some early_state"
  by (simp add: run_init_def early_state_def numeral_2_eq_2)

lemma exec_stranded:
  "exec 2 1 [Acquire 0, Finish 0 (Some refused), Deliver 0, Release 0,
             Acquire 1, Finish 1 (Some refused)] (run_init 2 1)
     = Some stranded_state"
  by (simp add: run_init_def stranded_state_def numeral_2_eq_2)

lemma exec_done:
  "exec 2 1 [Acquire 0, Finish 0 None, Deliver 0, Release 0,
             Acquire 1, Finish 1 None, Deliver 1] (run_init 2 1)
     = Some done_state"
  by (simp add: run_init_def done_state_def numeral_2_eq_2)

subsection \<open>run: the claims\<close>

text \<open>
  C5. In every state of every execution of a batch, the number of workers that hold a
  permit is at most the concurrency limit, and the workers that are in their query are
  among them. (This needs neither \<open>workers \<ge> concurrency\<close> nor \<open>concurrency \<ge> 1\<close>.)
\<close>

theorem run_permits_bounded:
  assumes "exec workers concurrency sched (run_init workers concurrency) = Some s"
  shows "permits_held s \<le> nat concurrency \<and> in_query s \<le> permits_held s"
proof -
  have "run_inv workers concurrency s"
    using assms by (rule run_inv_reachable)
  then have "permits_held s \<le> nat concurrency"
    by (simp add: run_inv_def)
  moreover have "in_query s \<le> permits_held s"
    unfolding in_query_def permits_held_def by (rule filter_le_filter) simp
  ultimately show ?thesis by simp
qed

theorem run_permits_bounded_witness:
  "exec 3 2 [Acquire 0, Acquire 2, Finish 0 None] (run_init 3 2) = Some busy_state \<and>
   permits_held busy_state = 2 \<and> in_query busy_state = 1 \<and>
   step 3 2 (Acquire 1) busy_state = None"
proof -
  have "permits_held busy_state \<le> nat 2 \<and> in_query busy_state \<le> permits_held busy_state"
    using run_permits_bounded [OF exec_busy] .
  moreover have "permits_held busy_state = 2" and "in_query busy_state = 1"
    and "step 3 2 (Acquire 1) busy_state = None"
    by (simp_all add: permits_held_def in_query_def busy_state_def)
  ultimately show ?thesis
    using exec_busy by simp
qed

text \<open>
  C4, as stated, fails: with two workers, when the first reports an error, \<open>run\<close>
  returns it while the second worker is still in its query and has not reported.
\<close>

theorem run_returns_before_all_reported:
  "run 2 2 [Acquire 0, Acquire 1, Finish 0 (Some refused), Deliver 0] = Some (Some refused) \<and>
   exec 2 2 [Acquire 0, Acquire 1, Finish 0 (Some refused), Deliver 0] (run_init 2 2)
     = Some early_state \<and>
   tasks early_state ! 1 = Querying \<and>
   reported early_state = 1"
  using exec_early by (simp add: run_def early_state_def reported_def)

text \<open>
  C4, amended. \<open>run\<close> returns nil only when all \<open>workers\<close> workers have reported back,
  each with nil. When it returns an error, that error is the first non-nil value it has
  received, every value received before it was nil, and it returns on receiving it,
  without waiting for the workers that have not reported yet. While \<open>run\<close> is in its
  receiving loop and the concurrency limit is at least 1, a step is possible, and no
  execution has more than \<open>4 * workers\<close> steps: an execution that cannot be continued
  is one in which \<open>run\<close> has returned.
\<close>

theorem run_returns:
  assumes "exec workers concurrency sched (run_init workers concurrency) = Some s"
  shows "(caller s = Returned None \<longrightarrow>
            received s = replicate (nat workers) None \<and> reported s = nat workers) \<and>
         (\<forall>err. caller s = Returned (Some err) \<longrightarrow>
            (\<exists>i. int i < workers \<and> received s = replicate i None @ [Some err] \<and>
                 reported s = Suc i)) \<and>
         (\<forall>i. caller s = Receiving i \<and> 1 \<le> concurrency \<longrightarrow>
            enabled workers concurrency s \<noteq> []) \<and>
         length sched \<le> 4 * nat workers"
proof -
  have inv: "run_inv workers concurrency s"
    using assms by (rule run_inv_reachable)
  have "caller s = Returned None \<longrightarrow>
          received s = replicate (nat workers) None \<and> reported s = nat workers"
    using inv by (auto simp: run_inv_def)
  moreover have "\<forall>err. caller s = Returned (Some err) \<longrightarrow>
          (\<exists>i. int i < workers \<and> received s = replicate i None @ [Some err] \<and>
               reported s = Suc i)"
    using inv by (auto simp: run_inv_def)
  moreover have "\<forall>i. caller s = Receiving i \<and> 1 \<le> concurrency \<longrightarrow>
          enabled workers concurrency s \<noteq> []"
    using inv run_progress by blast
  moreover have "length sched \<le> 4 * nat workers"
    using assms by (rule exec_length)
  ultimately show ?thesis by blast
qed

theorem run_returns_witness:
  "exec 2 1 [Acquire 0, Finish 0 None, Deliver 0, Release 0,
             Acquire 1, Finish 1 None, Deliver 1] (run_init 2 1) = Some done_state \<and>
   caller done_state = Returned None \<and>
   received done_state = [None, None] \<and> reported done_state = 2 \<and>
   exec 2 1 [Acquire 0, Finish 0 (Some refused), Deliver 0, Release 0,
             Acquire 1, Finish 1 (Some refused)] (run_init 2 1) = Some stranded_state \<and>
   caller stranded_state = Returned (Some refused) \<and>
   received stranded_state = [Some refused] \<and> reported stranded_state = 1 \<and>
   exec 3 2 [Acquire 0, Acquire 2, Finish 0 None] (run_init 3 2) = Some busy_state \<and>
   caller busy_state = Receiving 0 \<and> enabled 3 2 busy_state \<noteq> []"
proof -
  have d: "caller done_state = Returned None"
    by (simp add: done_state_def)
  have e: "caller stranded_state = Returned (Some refused)"
    by (simp add: stranded_state_def)
  have b: "caller busy_state = Receiving 0"
    by (simp add: busy_state_def)
  have "received done_state = replicate (nat 2) None \<and> reported done_state = nat 2"
    using run_returns [OF exec_done] d by blast
  then have 1: "received done_state = [None, None] \<and> reported done_state = 2"
    by (simp add: numeral_2_eq_2)
  obtain i where "received stranded_state = replicate i None @ [Some refused]"
    and "reported stranded_state = Suc i"
    using run_returns [OF exec_stranded] e by blast
  then have 2: "received stranded_state = [Some refused] \<and> reported stranded_state = 1"
    by (simp add: stranded_state_def)
  have 3: "enabled 3 2 busy_state \<noteq> []"
    using run_returns [OF exec_busy] b by simp
  show ?thesis
    using exec_done exec_stranded exec_busy d e b 1 2 3 by simp
qed

text \<open>
  C3. Two workers, one permit, and a service that refuses every request. The first
  worker takes the permit, fails, sends its error and releases the permit; \<open>run\<close>
  returns the error. The second worker then takes the permit, fails, and is at its send
  on \<open>respErrCh\<close>, which nobody receives from any more: in this state \<open>run\<close> has
  returned, a permit is held, and no step is possible, so the deferred release of the
  second worker never runs.
\<close>

theorem run_strands_permit:
  "run 2 1 [Acquire 0, Finish 0 (Some refused), Deliver 0, Release 0,
            Acquire 1, Finish 1 (Some refused)] = Some (Some refused) \<and>
   exec 2 1 [Acquire 0, Finish 0 (Some refused), Deliver 0, Release 0,
             Acquire 1, Finish 1 (Some refused)] (run_init 2 1) = Some stranded_state \<and>
   tasks stranded_state = [Exited, Sending (Some refused)] \<and>
   permits_held stranded_state = 1 \<and> concCh stranded_state = 1 \<and>
   enabled 2 1 stranded_state = []"
  using exec_stranded
  by (simp add: run_def stranded_state_def permits_held_def enabled_def candidates_def)

section \<open>Properties of the server\<close>

subsection \<open>Counting\<close>

lemma count_lines_eq:
  "count_lines lib re ls c =
     c + word_of_nat
           (length (filter (\<lambda>line. MatchString lib re (strings_ToLower lib line)) ls))"
  by (induction ls arbitrary: c) (simp_all add: Let_def)

lemma count_texts_eq:
  "count_texts lib re texts c = c + word_of_nat (total_matches lib re texts)"
  by (induction texts arbitrary: c)
    (simp_all add: total_matches_def matching_lines_def count_lines_eq)

lemma total_matches_mset:
  "total_matches lib re texts = sum_mset (image_mset (matching_lines lib re) (mset texts))"
  unfolding total_matches_def
  by (metis mset_map sum_mset_sum_list)

lemma sint_count:
  "n < 2 ^ 63 \<Longrightarrow> sint (word_of_nat n :: 64 word) = int n"
  by (simp add: sint_uint unsigned_of_nat take_bit_nat_eq_self signed_take_bit_int_eq_self)

lemma GetMatchCount_compiled:
  "regexp_Compile lib (strings_ToLower lib (Query req)) = Inr re \<Longrightarrow>
   GetMatchCount lib (texts, None) req =
     Returns (\<lparr>MatchCount = word_of_nat (total_matches lib re texts)\<rparr>, None)"
  by (simp add: GetMatchCount_def Let_def count_texts_eq)

lemma love_compiles:
  "regexp_Compile literal_lib (strings_ToLower literal_lib ''love'') = Inr ''love''"
  by (simp add: literal_lib_def ascii_lower_def literal_char_def)

lemma love_total: "total_matches literal_lib ''love'' love_corpus = 3"
  by code_simp

text \<open>
  C7, as stated, fails: the pattern \<open>(?P<w>love)\<close> is valid, but \<open>GetMatchCount\<close>
  compiles its lowercased form \<open>(?p<w>love)\<close>, which is not, and panics instead of
  returning a count.
\<close>

theorem GetMatchCount_valid_pattern_panics:
  "regexp_Compile group_lib ''(?P<w>love)'' = Inr ''love'' \<and>
   GetMatchCount group_lib (love_corpus, None) \<lparr>Query = ''(?P<w>love)''\<rparr>
     = Panics (Error ''error parsing regexp: (?p<w>love)'')"
  by code_simp

text \<open>
  C7, amended. For a request whose lowercased query compiles, and a corpus that was
  retrieved without error, \<open>GetMatchCount\<close> returns no error and the number of lines,
  summed over the documents, each split at its newlines, whose lowercased text the
  matcher of the lowercased pattern accepts. The field holds that number as an
  \<open>int64\<close>; below \<open>2 ^ 63\<close> lines its signed value is the number itself.
\<close>

theorem GetMatchCount_counts:
  assumes "regexp_Compile lib (strings_ToLower lib (Query req)) = Inr re"
  shows "\<exists>resp. GetMatchCount lib (texts, None) req = Returns (resp, None) \<and>
           MatchCount resp = word_of_nat (total_matches lib re texts) \<and>
           (total_matches lib re texts < 2 ^ 63 \<longrightarrow>
              sint (MatchCount resp) = int (total_matches lib re texts))"
  using GetMatchCount_compiled [OF assms, of texts] sint_count by auto

theorem GetMatchCount_counts_witness:
  "regexp_Compile literal_lib (strings_ToLower literal_lib (Query \<lparr>Query = ''love''\<rparr>))
     = Inr ''love'' \<and>
   map (matching_lines literal_lib ''love'') love_corpus = [2, 1, 0] \<and>
   (\<exists>resp. GetMatchCount literal_lib (love_corpus, None) \<lparr>Query = ''love''\<rparr>
             = Returns (resp, None) \<and>
           MatchCount resp = 3 \<and> sint (MatchCount resp) = 3)"
proof -
  have c: "regexp_Compile literal_lib
             (strings_ToLower literal_lib (Query \<lparr>Query = ''love''\<rparr>)) = Inr ''love''"
    using love_compiles by simp
  have m: "map (matching_lines literal_lib ''love'') love_corpus = [2, 1, 0]"
    by code_simp
  show ?thesis
    using GetMatchCount_counts [OF c, of love_corpus] c m by (simp add: love_total)
qed

text \<open>
  C6. The result of \<open>GetMatchCount\<close> does not depend on the order of the documents in
  the corpus it is given: two corpora with the same documents, in any two orders, give
  the same outcome for the same request. (For a fixed request and a fixed corpus the
  outcome is a function of the two: the loops read nothing else.)
\<close>

theorem GetMatchCount_order:
  assumes "mset texts = mset texts'"
  shows "GetMatchCount lib (texts, err) req = GetMatchCount lib (texts', err) req"
proof -
  have "total_matches lib re texts = total_matches lib re texts'" for re
    using assms by (simp add: total_matches_mset)
  then show ?thesis
    by (simp add: GetMatchCount_def Let_def count_texts_eq split: option.splits sum.splits)
qed

theorem GetMatchCount_order_witness:
  "mset love_corpus = mset (rev love_corpus) \<and>
   GetMatchCount literal_lib (love_corpus, None) \<lparr>Query = ''love''\<rparr>
     = GetMatchCount literal_lib (rev love_corpus, None) \<lparr>Query = ''love''\<rparr>"
proof -
  have h: "mset love_corpus = mset (rev love_corpus)" by simp
  show ?thesis
    using GetMatchCount_order [OF h, of literal_lib None "\<lparr>Query = ''love''\<rparr>"] h by simp
qed

subsection \<open>Patterns that do not compile\<close>

text \<open>
  C2, as stated, fails: for the pattern \<open>(\<close> and a corpus retrieved without error,
  \<open>GetMatchCount\<close> does not return an error to its caller; it panics.
\<close>

theorem GetMatchCount_invalid_pattern_panics:
  "GetMatchCount literal_lib (love_corpus, None) \<lparr>Query = ''(''\<rparr>
     = Panics (Error ''error parsing regexp: ('')"
  by (simp add: GetMatchCount_def literal_lib_def ascii_lower_def literal_char_def)

text \<open>
  C2, amended. For a request whose lowercased query does not compile, \<open>GetMatchCount\<close>
  counts no line and returns no count other than the zero of the fresh response: when
  the retrieval failed it returns the wrapped retrieval error with that response, and
  when the retrieval succeeded it panics in \<open>regexp.MustCompile\<close> with the compilation
  error, returning nothing.
\<close>

theorem GetMatchCount_invalid_pattern:
  assumes "regexp_Compile lib (strings_ToLower lib (Query req)) = Inl e"
  shows "GetMatchCount lib (texts, err) req =
           (case err of
              None \<Rightarrow> Panics e
            | Some rerr \<Rightarrow>
                Returns (\<lparr>MatchCount = 0\<rparr>, Some (Error (''fails to read files: '' @ message rerr))))"
  using assms by (simp add: GetMatchCount_def Let_def split: option.splits)

theorem GetMatchCount_invalid_pattern_witness:
  "regexp_Compile literal_lib (strings_ToLower literal_lib (Query \<lparr>Query = ''a(''\<rparr>))
     = Inl (Error ''error parsing regexp: a('') \<and>
   GetMatchCount literal_lib ([''a(b''], None) \<lparr>Query = ''a(''\<rparr>
     = Panics (Error ''error parsing regexp: a('') \<and>
   GetMatchCount literal_lib ([], Some (Error ''timeout'')) \<lparr>Query = ''a(''\<rparr>
     = Returns (\<lparr>MatchCount = 0\<rparr>, Some (Error ''fails to read files: timeout''))"
proof -
  have c: "regexp_Compile literal_lib (strings_ToLower literal_lib (Query \<lparr>Query = ''a(''\<rparr>))
             = Inl (Error ''error parsing regexp: a('')"
    by (simp add: literal_lib_def ascii_lower_def literal_char_def)
  show ?thesis
    using c GetMatchCount_invalid_pattern [OF c, of "[''a(b'']" None]
      GetMatchCount_invalid_pattern [OF c, of "[]" "Some (Error ''timeout'')"]
    by simp
qed

subsection \<open>readFiles: what holds in every state\<close>

lemma delivered_update:
  "k < length gs \<Longrightarrow> length gs = length ps \<Longrightarrow> gs ! k = Fetching \<Longrightarrow> g \<noteq> Fetching \<Longrightarrow>
   mset (delivered (gs[k := g]) ps) = add_mset (ps ! k) (mset (delivered gs ps))"
proof (induction gs arbitrary: k ps)
  case Nil
  then show ?case by simp
next
  case (Cons a gs)
  then obtain p ps' where ps: "ps = p # ps'" by (cases ps) auto
  show ?case
  proof (cases k)
    case 0
    with Cons.prems ps show ?thesis by (simp add: delivered_def)
  next
    case (Suc j)
    with Cons.prems ps have "mset (delivered (gs[j := g]) ps')
        = add_mset (ps' ! j) (mset (delivered gs ps'))"
      by (intro Cons.IH) simp_all
    with Suc ps show ?thesis by (simp add: delivered_def)
  qed
qed

lemma delivered_update_set:
  assumes "k < length gs" and "length gs = length ps" and "gs ! k = Fetching"
    and "g \<noteq> Fetching"
  shows "set (delivered (gs[k := g]) ps) = insert (ps ! k) (set (delivered gs ps))"
proof -
  have "set_mset (mset (delivered (gs[k := g]) ps))
          = set_mset (add_mset (ps ! k) (mset (delivered gs ps)))"
    using delivered_update [OF assms] by simp
  then show ?thesis by simp
qed

lemma delivered_update_length:
  assumes "k < length gs" and "length gs = length ps" and "gs ! k = Fetching"
    and "g \<noteq> Fetching"
  shows "length (delivered (gs[k := g]) ps) = Suc (length (delivered gs ps))"
proof -
  have "size (mset (delivered (gs[k := g]) ps))
          = size (add_mset (ps ! k) (mset (delivered gs ps)))"
    using delivered_update [OF assms] by simp
  then show ?thesis by simp
qed

lemma delivered_none: "delivered (replicate n Fetching) ps = []"
  by (auto simp: delivered_def filter_empty_conv dest: set_zip_leftD)

lemma delivered_all:
  "length gs = length ps \<Longrightarrow> Fetching \<notin> set gs \<Longrightarrow> delivered gs ps = ps"
  by (induction gs ps rule: list_induct2) (auto simp: delivered_def)

lemma delivered_length_le: "length (delivered gs ps) \<le> length ps"
proof -
  have "length (delivered gs ps) = length (filter (\<lambda>(g, p). g \<noteq> Fetching) (zip gs ps))"
    by (simp add: delivered_def)
  also have "\<dots> \<le> length (zip gs ps)"
    by (rule length_filter_le)
  also have "\<dots> \<le> length ps"
    by simp
  finally show ?thesis .
qed

lemma delivered_full:
  "length gs = length ps \<Longrightarrow> length (delivered gs ps) = length ps \<Longrightarrow> delivered gs ps = ps"
proof (induction gs ps rule: list_induct2)
  case Nil
  then show ?case by (simp add: delivered_def)
next
  case (Cons g gs p ps)
  show ?case
  proof (cases "g = Fetching")
    case True
    then have "length (delivered (g # gs) (p # ps)) = length (delivered gs ps)"
      by (simp add: delivered_def)
    with Cons.prems delivered_length_le [of gs ps] show ?thesis by simp
  next
    case False
    then have "delivered (g # gs) (p # ps) = p # delivered gs ps"
      by (simp add: delivered_def)
    with Cons show ?thesis by simp
  qed
qed

lemma take_update_mset:
  "i < length xs \<Longrightarrow> mset (take (Suc i) (xs[i := v])) = add_mset v (mset (take i xs))"
  by (simp add: take_Suc_conv_app_nth)

lemma rf_inv_init:
  assumes "NewClient st = None" and "list_paths (Objects st) [] = Inr ps"
  shows "rf_inv st ps (rf_init st bucketName prefix)"
  using assms by (simp add: rf_inv_def rf_init_def delivered_none)

lemma rf_inv_recv:
  assumes inv: "rf_inv st ps s" and step: "rf_step st (Recv k) s = Some s'"
  shows "rf_inv st ps s'"
proof -
  define f where "f = Fetch st (ps ! k)"
  define g where "g = (if open_fails f then FellThrough else Finished)"
  from inv have p: "paths s = ps" and lr: "length (routines s) = length ps"
    and lt: "length (ret s) = length ps"
    and ix: "idx s = length (delivered (routines s) ps)"
    by (simp_all add: rf_inv_def)
  from step p have c: "pc s = Collecting" and k: "k < length (routines s)"
    and w: "routines s ! k = Fetching"
    and s': "s' = s\<lparr>routines := (routines s)[k := g],
                    rf_err := (if resp_err (response f) \<noteq> None then resp_err (response f)
                               else rf_err s),
                    ret := (ret s)[idx s := resp_s (response f)],
                    idx := Suc (idx s),
                    pc := (if Suc (idx s) < length ps then Collecting else RfReturned)\<rparr>"
    by (auto simp: f_def g_def Let_def split: if_splits)
  from inv c have i: "idx s < length ps"
    unfolding rf_inv_def by blast
  from inv have m: "mset (take (idx s) (ret s))
      = image_mset (\<lambda>p. resp_s (response (Fetch st p))) (mset (delivered (routines s) ps))"
    unfolding rf_inv_def by blast
  from inv have e1: "rf_err s = None \<longrightarrow>
      (\<forall>p \<in> set (delivered (routines s) ps). resp_err (response (Fetch st p)) = None)"
    and e2: "rf_err s \<noteq> None \<longrightarrow>
      (\<exists>p \<in> set (delivered (routines s) ps). rf_err s = resp_err (response (Fetch st p)))"
    and ft: "FellThrough \<in> set (routines s) \<longrightarrow> (\<exists>p \<in> set ps. open_fails (Fetch st p))"
    unfolding rf_inv_def by blast+
  have g: "g \<noteq> Fetching"
    by (simp add: g_def)
  have kp: "ps ! k \<in> set ps"
    using k lr by simp
  have d: "mset (delivered (routines s') ps) = add_mset (ps ! k) (mset (delivered (routines s) ps))"
    using delivered_update [OF k lr w g] by (simp add: s')
  have ds: "set (delivered (routines s') ps) = insert (ps ! k) (set (delivered (routines s) ps))"
    using delivered_update_set [OF k lr w g] by (simp add: s')
  have dl: "length (delivered (routines s') ps) = Suc (idx s)"
    using delivered_update_length [OF k lr w g] ix by (simp add: s')
  have 1: "paths s' = ps \<and> length (routines s') = length ps \<and> length (ret s') = length ps"
    using p lr lt by (simp add: s')
  have 2: "idx s' = length (delivered (routines s') ps)"
    using dl by (simp add: s')
  have 3: "(pc s' = Collecting \<longrightarrow> idx s' < length ps) \<and>
           (pc s' = RfReturned \<longrightarrow> idx s' = length ps)"
    using i by (auto simp: s')
  have "mset (take (idx s') (ret s'))
          = add_mset (resp_s (response f)) (mset (take (idx s) (ret s)))"
    using take_update_mset [of "idx s" "ret s"] i lt by (simp add: s')
  then have 4: "mset (take (idx s') (ret s'))
          = image_mset (\<lambda>p. resp_s (response (Fetch st p))) (mset (delivered (routines s') ps))"
    using m d by (simp add: f_def)
  have 5: "rf_err s' = None \<longrightarrow>
             (\<forall>p \<in> set (delivered (routines s') ps). resp_err (response (Fetch st p)) = None)"
    using e1 ds by (auto simp: s' f_def split: if_splits)
  have 6: "rf_err s' \<noteq> None \<longrightarrow>
             (\<exists>p \<in> set (delivered (routines s') ps). rf_err s' = resp_err (response (Fetch st p)))"
  proof (cases "resp_err (response f) \<noteq> None")
    case True
    then show ?thesis
      using ds by (auto simp: s' f_def)
  next
    case False
    then have "rf_err s' = rf_err s" by (simp add: s')
    then show ?thesis
      using e2 ds by auto
  qed
  have 7: "FellThrough \<in> set (routines s') \<longrightarrow> (\<exists>p \<in> set ps. open_fails (Fetch st p))"
  proof
    assume "FellThrough \<in> set (routines s')"
    then have "FellThrough \<in> insert g (set (routines s))"
      using set_update_subset_insert [of "routines s" k g] by (auto simp: s')
    then consider "g = FellThrough" | "FellThrough \<in> set (routines s)" by blast
    then show "\<exists>p \<in> set ps. open_fails (Fetch st p)"
    proof cases
      case 1
      then have "open_fails f" by (simp add: g_def split: if_splits)
      with kp show ?thesis by (auto simp: f_def)
    next
      case 2
      with ft show ?thesis by blast
    qed
  qed
  show ?thesis
    unfolding rf_inv_def using 1 2 3 4 5 6 7 by blast
qed

lemma rf_inv_nilread:
  assumes inv: "rf_inv st ps s" and step: "rf_step st (NilRead k) s = Some s'"
  shows "rf_inv st ps s'"
proof -
  from step have "s' = s\<lparr>pc := Crashed\<rparr>"
    by (auto split: if_splits)
  with inv show ?thesis by (auto simp: rf_inv_def)
qed

lemma rf_inv_step:
  "rf_inv st ps s \<Longrightarrow> rf_step st a s = Some s' \<Longrightarrow> rf_inv st ps s'"
  by (cases a) (blast intro: rf_inv_recv rf_inv_nilread)+

lemma rf_inv_exec:
  "rf_inv st ps s \<Longrightarrow> rf_exec st sched s = Some s' \<Longrightarrow> rf_inv st ps s'"
proof (induction sched arbitrary: s)
  case Nil
  then show ?case by simp
next
  case (Cons a sched)
  then show ?case
    by (auto split: option.splits dest: rf_inv_step)
qed

subsection \<open>readFiles: progress and length of executions\<close>

lemma rf_progress:
  assumes inv: "rf_inv st ps s" and c: "pc s = Collecting"
  shows "rf_enabled st s \<noteq> []"
proof -
  from inv have p: "paths s = ps" and lr: "length (routines s) = length ps"
    and ix: "idx s = length (delivered (routines s) ps)"
    unfolding rf_inv_def by blast+
  from inv c have i: "idx s < length ps"
    unfolding rf_inv_def by blast
  have "Fetching \<in> set (routines s)"
  proof (rule ccontr)
    assume "Fetching \<notin> set (routines s)"
    then have "delivered (routines s) ps = ps"
      using lr by (intro delivered_all)
    with ix i show False by simp
  qed
  then obtain k where k: "k < length (routines s)" "routines s ! k = Fetching"
    by (auto simp: in_set_conv_nth)
  then have "rf_step st (Recv k) s \<noteq> None"
    using c p lr by (simp add: Let_def)
  moreover have "Recv k \<in> set (concat (map (\<lambda>k. [Recv k, NilRead k])
                                  [0 ..< length (routines s)]))"
    using k by auto
  ultimately show ?thesis
    unfolding rf_enabled_def filter_empty_conv by blast
qed

lemma rf_step_counts:
  assumes inv: "rf_inv st ps s" and ok: "\<forall>p \<in> set ps. \<not> open_fails (Fetch st p)"
    and step: "rf_step st a s = Some s'"
  shows "idx s' = Suc (idx s)"
proof (cases a)
  case (Recv k)
  with step show ?thesis
    by (auto simp: Let_def split: if_splits)
next
  case (NilRead k)
  with step have "k < length (routines s)" and "routines s ! k = FellThrough"
    by (auto split: if_splits)
  then have "FellThrough \<in> set (routines s)"
    by (metis nth_mem)
  with inv ok show ?thesis
    unfolding rf_inv_def by blast
qed

lemma rf_exec_counts:
  assumes "rf_inv st ps s" and "\<forall>p \<in> set ps. \<not> open_fails (Fetch st p)"
    and "rf_exec st sched s = Some s'"
  shows "idx s' = idx s + length sched"
  using assms
proof (induction sched arbitrary: s)
  case Nil
  then show ?case by simp
next
  case (Cons a sched)
  then obtain t where t: "rf_step st a s = Some t" and r: "rf_exec st sched t = Some s'"
    by (auto split: option.splits)
  have "rf_inv st ps t"
    using Cons.prems(1) t by (rule rf_inv_step)
  then have "idx s' = idx t + length sched"
    using Cons.prems(2) r by (rule Cons.IH)
  moreover have "idx t = Suc (idx s)"
    using Cons.prems(1,2) t by (rule rf_step_counts)
  ultimately show ?case by simp
qed

lemma rf_no_crash:
  assumes inv: "rf_inv st ps s" and ok: "\<forall>p \<in> set ps. \<not> open_fails (Fetch st p)"
    and c: "pc s \<noteq> Crashed" and step: "rf_step st a s = Some s'"
  shows "pc s' \<noteq> Crashed"
proof (cases a)
  case (Recv k)
  with step show ?thesis
    by (auto simp: Let_def split: if_splits)
next
  case (NilRead k)
  with step have "k < length (routines s)" and "routines s ! k = FellThrough"
    by (auto split: if_splits)
  then have "FellThrough \<in> set (routines s)"
    by (metis nth_mem)
  with inv ok show ?thesis
    unfolding rf_inv_def by blast
qed

lemma rf_exec_no_crash:
  assumes "rf_inv st ps s" and "\<forall>p \<in> set ps. \<not> open_fails (Fetch st p)"
    and "pc s \<noteq> Crashed" and "rf_exec st sched s = Some s'"
  shows "pc s' \<noteq> Crashed"
  using assms
proof (induction sched arbitrary: s)
  case Nil
  then show ?case by simp
next
  case (Cons a sched)
  then obtain t where t: "rf_step st a s = Some t" and r: "rf_exec st sched t = Some s'"
    by (auto split: option.splits)
  have "rf_inv st ps t"
    using Cons.prems(1) t by (rule rf_inv_step)
  moreover have "pc t \<noteq> Crashed"
    using Cons.prems(1,2,3) t by (rule rf_no_crash)
  ultimately show ?case
    using Cons.prems(2) r by (intro Cons.IH [of t])
qed

lemma rf_returned_result:
  assumes inv: "rf_inv st ps s" and c: "pc s = RfReturned"
  shows "length (ret s) = length ps \<and>
         mset (ret s) = mset (map (\<lambda>p. resp_s (response (Fetch st p))) ps) \<and>
         (rf_err s = None \<longrightarrow> (\<forall>p \<in> set ps. resp_err (response (Fetch st p)) = None)) \<and>
         (rf_err s \<noteq> None \<longrightarrow> (\<exists>p \<in> set ps. rf_err s = resp_err (response (Fetch st p))))"
proof -
  from inv have lr: "length (routines s) = length ps" and lt: "length (ret s) = length ps"
    and ix: "idx s = length (delivered (routines s) ps)"
    and m: "mset (take (idx s) (ret s))
      = image_mset (\<lambda>p. resp_s (response (Fetch st p))) (mset (delivered (routines s) ps))"
    and e1: "rf_err s = None \<longrightarrow>
      (\<forall>p \<in> set (delivered (routines s) ps). resp_err (response (Fetch st p)) = None)"
    and e2: "rf_err s \<noteq> None \<longrightarrow>
      (\<exists>p \<in> set (delivered (routines s) ps). rf_err s = resp_err (response (Fetch st p)))"
    unfolding rf_inv_def by blast+
  from inv c have i: "idx s = length ps"
    unfolding rf_inv_def by blast
  have d: "delivered (routines s) ps = ps"
    using lr ix i by (intro delivered_full) simp_all
  have "mset (ret s) = mset (map (\<lambda>p. resp_s (response (Fetch st p))) ps)"
    using m i lt d by simp
  with lt e1 e2 d show ?thesis by simp
qed

subsection \<open>readFiles: executions over small stores\<close>

lemma read_fail_paths:
  "NewClient read_fail_store = None \<and>
   list_paths (Objects read_fail_store) [] = Inr [''a'', ''b'']"
  by (simp add: read_fail_store_def)

lemma open_failure_crashes:
  "map_option pc (rf_exec open_fail_store [Recv 1, NilRead 1]
                    (rf_init open_fail_store ''dataflow-samples'' ''shakespeare/''))
     = Some Crashed"
  by (simp add: rf_init_def open_fail_store_def Let_def)

subsection \<open>readFiles: the claims\<close>

text \<open>
  C1, as stated, fails: objects \<open>a\<close> and \<open>b\<close> are listed, \<open>a\<close> is fetched and the read
  of \<open>b\<close> fails. \<open>readFiles\<close> returns the error together with two strings, not one: the
  content of \<open>a\<close> and what was read of \<open>b\<close>.
\<close>

theorem readFiles_keeps_failed_entry:
  "readFiles read_fail_store ''dataflow-samples'' ''shakespeare/'' [Recv 0, Recv 1]
     = Some ([''alpha'', ''be''], Some timeout)"
  by (simp add: readFiles_def rf_init_def rf_result_def read_fail_store_def Let_def)

text \<open>
  C1, amended. The client is created, the listing gives a non-empty list of paths, every
  object can be opened, and the read of at least one of them fails. Then every
  execution has at most as many steps as there are paths; while it has fewer, the
  collecting loop is running and a step is possible; and when it has that many,
  \<open>readFiles\<close> has returned a non-nil error, which is the error of one of the failed
  fetches, and a slice with one string for each path: the contents of the objects that
  were fetched and, for each fetch that failed, the data read before the failure.
\<close>

theorem readFiles_partial_failure:
  assumes client: "NewClient st = None"
    and listing: "list_paths (Objects st) [] = Inr ps"
    and nonempty: "ps \<noteq> []"
    and opened: "\<forall>p \<in> set ps. \<not> open_fails (Fetch st p)"
    and failed: "\<exists>p \<in> set ps. resp_err (response (Fetch st p)) \<noteq> None"
    and exec: "rf_exec st sched (rf_init st bucketName prefix) = Some s"
  shows "length sched \<le> length ps \<and>
         (length sched < length ps \<longrightarrow> pc s = Collecting \<and> rf_enabled st s \<noteq> []) \<and>
         (length sched = length ps \<longrightarrow>
            (\<exists>r e. readFiles st bucketName prefix sched = Some (r, Some e) \<and>
                   length r = length ps \<and>
                   mset r = mset (map (\<lambda>p. resp_s (response (Fetch st p))) ps) \<and>
                   (\<exists>p \<in> set ps. resp_err (response (Fetch st p)) = Some e)))"
proof -
  let ?s0 = "rf_init st bucketName prefix"
  have inv0: "rf_inv st ps ?s0"
    using client listing by (rule rf_inv_init)
  have inv: "rf_inv st ps s"
    using inv0 exec by (rule rf_inv_exec)
  have start: "idx ?s0 = 0" and pc0: "pc ?s0 \<noteq> Crashed"
    using client listing by (simp_all add: rf_init_def)
  have n: "idx s = length sched"
    using rf_exec_counts [OF inv0 opened exec] start by simp
  have nc: "pc s \<noteq> Crashed"
    using inv0 opened pc0 exec by (rule rf_exec_no_crash)
  from inv have le: "idx s \<le> length ps" and ret: "pc s = RfReturned \<longrightarrow> idx s = length ps"
    and col: "pc s = Collecting \<longrightarrow> idx s < length ps"
    unfolding rf_inv_def using delivered_length_le [of "routines s" ps] by auto
  have 1: "length sched \<le> length ps"
    using n le by simp
  have 2: "length sched < length ps \<longrightarrow> pc s = Collecting \<and> rf_enabled st s \<noteq> []"
  proof
    assume "length sched < length ps"
    with n ret nc have "pc s = Collecting"
      by (cases "pc s") auto
    with inv show "pc s = Collecting \<and> rf_enabled st s \<noteq> []"
      using rf_progress by blast
  qed
  have 3: "length sched = length ps \<longrightarrow>
            (\<exists>r e. readFiles st bucketName prefix sched = Some (r, Some e) \<and>
                   length r = length ps \<and>
                   mset r = mset (map (\<lambda>p. resp_s (response (Fetch st p))) ps) \<and>
                   (\<exists>p \<in> set ps. resp_err (response (Fetch st p)) = Some e))"
  proof
    assume "length sched = length ps"
    with n col nc have r: "pc s = RfReturned"
      by (cases "pc s") auto
    note res = rf_returned_result [OF inv r]
    from res failed have "rf_err s \<noteq> None" by auto
    then obtain e where e: "rf_err s = Some e" by blast
    with res have "\<exists>p \<in> set ps. resp_err (response (Fetch st p)) = Some e"
      by (metis option.distinct(1))
    moreover have "readFiles st bucketName prefix sched = Some (ret s, Some e)"
      using exec r e by (simp add: readFiles_def rf_result_def)
    ultimately show "\<exists>r e. readFiles st bucketName prefix sched = Some (r, Some e) \<and>
                   length r = length ps \<and>
                   mset r = mset (map (\<lambda>p. resp_s (response (Fetch st p))) ps) \<and>
                   (\<exists>p \<in> set ps. resp_err (response (Fetch st p)) = Some e)"
      using res by blast
  qed
  show ?thesis using 1 2 3 by blast
qed

theorem readFiles_partial_failure_witness:
  "NewClient read_fail_store = None \<and>
   list_paths (Objects read_fail_store) [] = Inr [''a'', ''b''] \<and>
   \<not> open_fails (Fetch read_fail_store ''a'') \<and>
   \<not> open_fails (Fetch read_fail_store ''b'') \<and>
   resp_err (response (Fetch read_fail_store ''b'')) = Some timeout \<and>
   (\<exists>s. rf_exec read_fail_store [Recv 1, Recv 0]
           (rf_init read_fail_store ''dataflow-samples'' ''shakespeare/'') = Some s) \<and>
   (\<exists>r e. readFiles read_fail_store ''dataflow-samples'' ''shakespeare/'' [Recv 1, Recv 0]
            = Some (r, Some e) \<and>
          length r = 2 \<and> mset r = {#''alpha'', ''be''#})"
proof -
  let ?ps = "[''a'', ''b'']"
  have c: "NewClient read_fail_store = None"
    and l: "list_paths (Objects read_fail_store) [] = Inr ?ps"
    using read_fail_paths by simp_all
  have ne: "?ps \<noteq> []" by simp
  have oa: "\<not> open_fails (Fetch read_fail_store ''a'')"
    and ob: "\<not> open_fails (Fetch read_fail_store ''b'')"
    and fb: "resp_err (response (Fetch read_fail_store ''b'')) = Some timeout"
    by (simp_all add: read_fail_store_def)
  have o: "\<forall>p \<in> set ?ps. \<not> open_fails (Fetch read_fail_store p)"
    using oa ob by simp
  have f: "\<exists>p \<in> set ?ps. resp_err (response (Fetch read_fail_store p)) \<noteq> None"
    using fb by simp
  obtain s where x: "rf_exec read_fail_store [Recv 1, Recv 0]
           (rf_init read_fail_store ''dataflow-samples'' ''shakespeare/'') = Some s"
    by (simp add: rf_init_def read_fail_store_def Let_def)
  have m: "mset (map (\<lambda>p. resp_s (response (Fetch read_fail_store p))) ?ps)
             = {#''alpha'', ''be''#}"
    by (simp add: read_fail_store_def)
  have "\<exists>r e. readFiles read_fail_store ''dataflow-samples'' ''shakespeare/'' [Recv 1, Recv 0]
            = Some (r, Some e) \<and>
          length r = 2 \<and> mset r = {#''alpha'', ''be''#}"
    using readFiles_partial_failure [OF c l ne o f x] m by auto
  with c l oa ob fb x show ?thesis by blast
qed

text \<open>
  C9. When the client is created and the listing ends without an object name,
  \<open>readFiles\<close> returns the empty slice and the nil error, without any step of a
  goroutine: there is none.
\<close>

theorem readFiles_empty:
  assumes "NewClient st = None" and "list_paths (Objects st) [] = Inr []"
  shows "readFiles st bucketName prefix [] = Some ([], None) \<and>
         rf_enabled st (rf_init st bucketName prefix) = []"
  using assms by (simp add: readFiles_def rf_init_def rf_result_def rf_enabled_def)

theorem readFiles_empty_witness:
  "NewClient empty_store = None \<and> list_paths (Objects empty_store) [] = Inr [] \<and>
   readFiles empty_store ''dataflow-samples'' ''shakespeare/'' [] = Some ([], None)"
proof -
  have c: "NewClient empty_store = None"
    and l: "list_paths (Objects empty_store) [] = Inr []"
    by (simp_all add: empty_store_def)
  show ?thesis
    using readFiles_empty [OF c l] c l by simp
qed

end
